theory Spec2Isabelle
  imports Main "HOL-Library.Word"
begin

section \<open>The external scanner of the Nix grammar (src/scanner.c)\<close>

subsection \<open>Token kinds and scanner state\<close>

text \<open>The enum \<open>TokenType\<close>, in the order of the source.\<close>

datatype TokenType =
    STRING_START
  | STRING_CONTENT
  | STRING_END
  | INDENTED_STRING_START
  | INDENTED_STRING_CONTENT
  | INDENTED_STRING_END
  | INTERPOLATION_START
  | INTERPOLATION_END
  | ESCAPE_SEQUENCE
  | COMMENT

text \<open>
  A C \<open>int\<close> is a 32-bit word read in two's complement (\<open>sint\<close>); \<open>++\<close> and \<open>--\<close> wrap
  around, which is what the usual compilers make of the overflow that C leaves undefined.
  A C \<open>char\<close> is a byte.
\<close>

type_synonym c_int = "32 word"
type_synonym c_char = "8 word"

text \<open>The struct \<open>Scanner\<close>.\<close>

record Scanner =
  in_string :: bool
  in_indented_string :: bool
  interpolation_depth :: c_int
  paren_depth :: c_int
  brace_depth :: c_int

text \<open>\<open>tree_sitter_nix_external_scanner_create\<close>: \<open>calloc\<close> gives the all-zero record.\<close>

definition scanner_create :: Scanner where
  "scanner_create =
     \<lparr>in_string = False, in_indented_string = False,
      interpolation_depth = 0, paren_depth = 0, brace_depth = 0\<rparr>"

subsection \<open>The character source\<close>

text \<open>
  Modelled from the spec: the \<open>TSLexer\<close> of tree-sitter's \<open>parser.h\<close>, which is not
  part of the sources. The scanner uses it only through \<open>lookahead\<close>, \<open>advance\<close> (with
  and without skipping), \<open>mark_end\<close> and \<open>result_symbol\<close>; the record below and the
  operations \<open>lookahead\<close>, \<open>advance\<close>, \<open>skip\<close>, \<open>mark_end\<close>, \<open>token_end\<close>,
  \<open>token_text\<close> and \<open>remaining\<close> model that character source.
  The input is a list of code points (\<open>lookahead\<close> is an \<open>int32_t\<close>). \<open>consumed\<close> holds
  the characters the current call has advanced over, oldest first, \<open>rest\<close> the unread
  ones. \<open>token_start\<close> is the index in \<open>consumed\<close> where the token begins (a skipping
  advance moves it), \<open>marked_end\<close> the index recorded by the last \<open>mark_end\<close>.
\<close>

record TSLexer =
  consumed :: "int list"
  rest :: "int list"
  token_start :: nat
  marked_end :: "nat option"
  result_symbol :: TokenType

text \<open>The next unread character; 0 is the end-of-input sentinel.\<close>

definition lookahead :: "TSLexer \<Rightarrow> int" where
  "lookahead lx = (case rest lx of [] \<Rightarrow> 0 | c # _ \<Rightarrow> c)"

text \<open>\<open>lexer->advance(lexer, false)\<close>: consume one character; nothing happens at the end.\<close>

definition advance :: "TSLexer \<Rightarrow> TSLexer" where
  "advance lx =
     (case rest lx of
        [] \<Rightarrow> lx
      | c # cs \<Rightarrow> lx\<lparr>consumed := consumed lx @ [c], rest := cs\<rparr>)"

text \<open>\<open>lexer->advance(lexer, true)\<close>: the character is dropped from the token.\<close>

definition skip :: "TSLexer \<Rightarrow> TSLexer" where
  "skip lx =
     (case rest lx of
        [] \<Rightarrow> lx
      | c # cs \<Rightarrow> lx\<lparr>consumed := consumed lx @ [c], rest := cs,
                     token_start := Suc (length (consumed lx))\<rparr>)"

definition mark_end :: "TSLexer \<Rightarrow> TSLexer" where
  "mark_end lx = lx\<lparr>marked_end := Some (length (consumed lx))\<rparr>"

text \<open>A lexer positioned at the start of \<open>inp\<close>, as each scan call receives it.\<close>

definition lexer_at :: "int list \<Rightarrow> TSLexer" where
  "lexer_at inp =
     \<lparr>consumed = [], rest = inp, token_start = 0, marked_end = None,
      result_symbol = STRING_START\<rparr>"

text \<open>
  The end of a produced token is the marked end, or the current position when
  \<open>mark_end\<close> was never called; its text is what lies between start and end.
\<close>

definition token_end :: "TSLexer \<Rightarrow> nat" where
  "token_end lx = (case marked_end lx of None \<Rightarrow> length (consumed lx) | Some m \<Rightarrow> m)"

definition token_text :: "TSLexer \<Rightarrow> int list" where
  "token_text lx = drop (token_start lx) (take (token_end lx) (consumed lx))"

text \<open>The input that follows a produced token.\<close>

definition remaining :: "TSLexer \<Rightarrow> int list" where
  "remaining lx = drop (token_end lx) (consumed lx @ rest lx)"

text \<open>The number of characters the call has advanced over.\<close>

definition position :: "TSLexer \<Rightarrow> nat" where
  "position lx = length (consumed lx)"

subsection \<open>Character constants\<close>

abbreviation ch_tab :: int where "ch_tab \<equiv> 9"
abbreviation ch_newline :: int where "ch_newline \<equiv> 10"
abbreviation ch_return :: int where "ch_return \<equiv> 13"
abbreviation ch_space :: int where "ch_space \<equiv> 32"
abbreviation ch_dquote :: int where "ch_dquote \<equiv> 34"
abbreviation ch_hash :: int where "ch_hash \<equiv> 35"
abbreviation ch_dollar :: int where "ch_dollar \<equiv> 36"
abbreviation ch_squote :: int where "ch_squote \<equiv> 39"
abbreviation ch_star :: int where "ch_star \<equiv> 42"
abbreviation ch_slash :: int where "ch_slash \<equiv> 47"
abbreviation ch_backslash :: int where "ch_backslash \<equiv> 92"
abbreviation ch_n :: int where "ch_n \<equiv> 110"
abbreviation ch_r :: int where "ch_r \<equiv> 114"
abbreviation ch_t :: int where "ch_t \<equiv> 116"
abbreviation ch_x :: int where "ch_x \<equiv> 120"
abbreviation ch_lbrace :: int where "ch_lbrace \<equiv> 123"
abbreviation ch_rbrace :: int where "ch_rbrace \<equiv> 125"

subsection \<open>Facts about the character source needed for termination\<close>

lemma rest_advance_less:
  "lookahead lx \<noteq> 0 \<Longrightarrow> length (rest (advance lx)) < length (rest lx)"
  by (cases "rest lx") (simp_all add: lookahead_def advance_def)

lemma rest_advance_le: "length (rest (advance lx)) \<le> length (rest lx)"
  by (cases "rest lx") (simp_all add: advance_def)

lemma rest_skip_less:
  "lookahead lx \<noteq> 0 \<Longrightarrow> length (rest (skip lx)) < length (rest lx)"
  by (cases "rest lx") (simp_all add: lookahead_def skip_def)

lemma rest_mark_end: "rest (mark_end lx) = rest lx"
  by (simp add: mark_end_def)

subsection \<open>The sub-scanners\<close>

text \<open>\<open>scan_string_content\<close>: the loop, with \<open>has_content\<close> as its accumulator.\<close>

function scan_string_content_loop :: "bool \<Rightarrow> TSLexer \<Rightarrow> bool \<times> TSLexer" where
  "scan_string_content_loop has_content lx =
     (if lookahead lx \<noteq> 0 then
        if lookahead lx = ch_dquote then (has_content, lx)
        else if lookahead lx = ch_backslash then (has_content, lx)
        else if lookahead lx = ch_dollar then
          (if lookahead (advance lx) = ch_lbrace then (has_content, advance lx)
           else scan_string_content_loop True (mark_end (advance lx)))
        else scan_string_content_loop True (mark_end (advance lx))
      else (has_content, lx))"
  by pat_completeness auto
termination
  by (relation "measure (\<lambda>(h, lx). length (rest lx))")
     (simp_all add: rest_mark_end rest_advance_less)

definition scan_string_content :: "TSLexer \<Rightarrow> bool \<times> TSLexer" where
  "scan_string_content lx = scan_string_content_loop False (mark_end lx)"

text \<open>
  \<open>scan_indented_string_content\<close>: the loop, with \<open>has_content\<close> and \<open>quote_count\<close>.
  The count never exceeds 2, so it is kept as a plain integer.
\<close>

function scan_indented_string_content_loop ::
    "bool \<Rightarrow> int \<Rightarrow> TSLexer \<Rightarrow> bool \<times> TSLexer" where
  "scan_indented_string_content_loop has_content quote_count lx =
     (if lookahead lx \<noteq> 0 then
        if lookahead lx = ch_squote then
          (if quote_count + 1 = 2 then (has_content, advance lx)
           else scan_indented_string_content_loop True (quote_count + 1)
                  (mark_end (advance lx)))
        else if lookahead lx = ch_dollar then
          (if lookahead (advance lx) = ch_lbrace then (has_content, advance lx)
           else scan_indented_string_content_loop True 0 (mark_end (advance lx)))
        else scan_indented_string_content_loop True 0 (mark_end (advance lx))
      else (has_content, lx))"
  by pat_completeness auto
termination
  by (relation "measure (\<lambda>(h, q, lx). length (rest lx))")
     (simp_all add: rest_mark_end rest_advance_less)

definition scan_indented_string_content :: "TSLexer \<Rightarrow> bool \<times> TSLexer" where
  "scan_indented_string_content lx =
     scan_indented_string_content_loop False 0 (mark_end lx)"

text \<open>\<open>scan_escape_sequence\<close>. The \<open>for\<close> loop over the hex digits counts down here.\<close>

definition is_hex_digit :: "int \<Rightarrow> bool" where
  "is_hex_digit c \<longleftrightarrow>
     (48 \<le> c \<and> c \<le> 57) \<or> (97 \<le> c \<and> c \<le> 102) \<or> (65 \<le> c \<and> c \<le> 70)"

fun scan_hex_digits :: "nat \<Rightarrow> TSLexer \<Rightarrow> bool \<times> TSLexer" where
  "scan_hex_digits 0 lx = (True, lx)"
| "scan_hex_digits (Suc n) lx =
     (if is_hex_digit (lookahead lx) then scan_hex_digits n (advance lx)
      else (False, lx))"

definition is_simple_escape :: "int \<Rightarrow> bool" where
  "is_simple_escape c \<longleftrightarrow>
     c = ch_n \<or> c = ch_r \<or> c = ch_t \<or> c = ch_backslash \<or> c = ch_dquote
     \<or> c = ch_squote \<or> c = ch_dollar"

definition scan_escape_sequence :: "TSLexer \<Rightarrow> bool \<times> TSLexer" where
  "scan_escape_sequence lx =
     (if lookahead lx \<noteq> ch_backslash then (False, lx)
      else if is_simple_escape (lookahead (advance lx)) then
        (True, advance (advance lx))
      else if lookahead (advance lx) = ch_x then
        scan_hex_digits 2 (advance (advance lx))
      else (False, advance lx))"

text \<open>\<open>scan_comment\<close>: the line-comment loop, the block-comment loop, and the function.\<close>

function line_comment_loop :: "TSLexer \<Rightarrow> TSLexer" where
  "line_comment_loop lx =
     (if lookahead lx \<noteq> 0 \<and> lookahead lx \<noteq> ch_newline
      then line_comment_loop (advance lx) else lx)"
  by pat_completeness auto
termination
  by (relation "measure (\<lambda>lx. length (rest lx))") (simp_all add: rest_advance_less)

function block_comment_loop :: "c_int \<Rightarrow> TSLexer \<Rightarrow> c_int \<times> TSLexer" where
  "block_comment_loop depth lx =
     (if 0 < sint depth \<and> lookahead lx \<noteq> 0 then
        if lookahead lx = ch_slash then
          (if lookahead (advance lx) = ch_star
           then block_comment_loop (depth + 1) (advance (advance lx))
           else block_comment_loop depth (advance lx))
        else if lookahead lx = ch_star then
          (if lookahead (advance lx) = ch_slash
           then block_comment_loop (depth - 1) (advance (advance lx))
           else block_comment_loop depth (advance lx))
        else block_comment_loop depth (advance lx)
      else (depth, lx))"
  by pat_completeness auto
termination
proof (relation "measure (\<lambda>(d, lx). length (rest lx))", goal_cases)
  case 1
  show ?case by simp
next
  case (2 depth lx)
  then show ?case
    using rest_advance_less [of lx] rest_advance_le [of "advance lx"] by simp
next
  case (3 depth lx)
  then show ?case using rest_advance_less [of lx] by simp
next
  case (4 depth lx)
  then show ?case
    using rest_advance_less [of lx] rest_advance_le [of "advance lx"] by simp
next
  case (5 depth lx)
  then show ?case using rest_advance_less [of lx] by simp
next
  case (6 depth lx)
  then show ?case using rest_advance_less [of lx] by simp
qed

definition scan_comment :: "TSLexer \<Rightarrow> bool \<times> TSLexer" where
  "scan_comment lx =
     (if lookahead lx = ch_hash then (True, line_comment_loop (advance lx))
      else if lookahead lx = ch_slash then
        (if lookahead (advance lx) = ch_star then
           (case block_comment_loop 1 (advance (advance lx)) of
              (depth, lx') \<Rightarrow> (depth = 0, lx'))
         else (False, advance lx))
      else (False, lx))"

subsection \<open>Serialization\<close>

text \<open>
  \<open>tree_sitter_nix_external_scanner_serialize\<close>: a \<open>bool\<close> is stored as 0 or 1, an
  \<open>int\<close> is cut to its low byte. The result is the buffer's first five bytes and the
  returned length.
\<close>

definition bool_to_char :: "bool \<Rightarrow> c_char" where
  "bool_to_char b = (if b then 1 else 0)"

definition int_to_char :: "c_int \<Rightarrow> c_char" where
  "int_to_char i = ucast i"

definition serialize :: "Scanner \<Rightarrow> c_char list \<times> nat" where
  "serialize scanner =
     ([bool_to_char (in_string scanner),
       bool_to_char (in_indented_string scanner),
       int_to_char (interpolation_depth scanner),
       int_to_char (paren_depth scanner),
       int_to_char (brace_depth scanner)], 5)"

text \<open>
  \<open>tree_sitter_nix_external_scanner_deserialize\<close>. A \<open>char\<close> converts to \<open>bool\<close> as
  "not zero". Whether plain \<open>char\<close> is signed is left to the platform, so the
  conversion to \<open>int\<close> takes it as a parameter: sign extension or zero extension.
  \<open>length\<close> is the number of bytes the buffer holds.
\<close>

definition char_to_bool :: "c_char \<Rightarrow> bool" where
  "char_to_bool c \<longleftrightarrow> c \<noteq> 0"

definition char_to_int :: "bool \<Rightarrow> c_char \<Rightarrow> c_int" where
  "char_to_int char_signed c = (if char_signed then scast c else ucast c)"

definition deserialize :: "bool \<Rightarrow> Scanner \<Rightarrow> c_char list \<Rightarrow> Scanner" where
  "deserialize char_signed scanner buffer =
     (if length buffer \<ge> 5 then
        scanner\<lparr>in_string := char_to_bool (buffer ! 0),
                in_indented_string := char_to_bool (buffer ! 1),
                interpolation_depth := char_to_int char_signed (buffer ! 2),
                paren_depth := char_to_int char_signed (buffer ! 3),
                brace_depth := char_to_int char_signed (buffer ! 4)\<rparr>
      else scanner)"

subsection \<open>The scan function\<close>

text \<open>
  \<open>tree_sitter_nix_external_scanner_scan\<close> returns from many places. Each block of the
  source is a stage here: it either returns (\<open>Inl\<close> of the outcome: token produced or
  not, the scanner state, the lexer) or falls through to the next block with the lexer
  as it left it (\<open>Inr\<close>). \<open>valid_symbols\<close> is the array indexed by token kind.
\<close>

type_synonym outcome = "bool \<times> Scanner \<times> TSLexer"

text \<open>The whitespace loop of lines 207-210.\<close>

definition is_whitespace :: "int \<Rightarrow> bool" where
  "is_whitespace c \<longleftrightarrow> c = ch_space \<or> c = ch_tab \<or> c = ch_newline \<or> c = ch_return"

function skip_whitespace :: "TSLexer \<Rightarrow> TSLexer" where
  "skip_whitespace lx =
     (if is_whitespace (lookahead lx) then skip_whitespace (skip lx) else lx)"
  by pat_completeness auto
termination
  by (relation "measure (\<lambda>lx. length (rest lx))")
     (auto simp: is_whitespace_def intro: rest_skip_less)

text \<open>Lines 220-239: the start of a string, when in neither kind of string.\<close>

definition scan_string_start ::
    "Scanner \<Rightarrow> TSLexer \<Rightarrow> (TokenType \<Rightarrow> bool) \<Rightarrow> outcome + TSLexer" where
  "scan_string_start scanner lx valid_symbols =
     (if \<not> in_string scanner \<and> \<not> in_indented_string scanner then
        if valid_symbols STRING_START \<and> lookahead lx = ch_dquote then
          Inl (True, scanner\<lparr>in_string := True\<rparr>,
               (advance lx)\<lparr>result_symbol := STRING_START\<rparr>)
        else if valid_symbols INDENTED_STRING_START \<and> lookahead lx = ch_squote then
          (if lookahead (advance lx) = ch_squote then
             Inl (True, scanner\<lparr>in_indented_string := True\<rparr>,
                  (advance (advance lx))\<lparr>result_symbol := INDENTED_STRING_START\<rparr>)
           else Inr (advance lx))
        else Inr lx
      else Inr lx)"

text \<open>
  Lines 252-261 and again 290-299: the check for \<open>${\<close>, the same text in both blocks.
\<close>

definition scan_interpolation_start ::
    "Scanner \<Rightarrow> TSLexer \<Rightarrow> (TokenType \<Rightarrow> bool) \<Rightarrow> outcome + TSLexer" where
  "scan_interpolation_start scanner lx valid_symbols =
     (if valid_symbols INTERPOLATION_START \<and> lookahead lx = ch_dollar then
        if lookahead (advance lx) = ch_lbrace then
          Inl (True,
               scanner\<lparr>interpolation_depth := interpolation_depth scanner + 1,
                       brace_depth := 1\<rparr>,
               (advance (advance lx))\<lparr>result_symbol := INTERPOLATION_START\<rparr>)
        else Inr (advance lx)
      else Inr lx)"

text \<open>Lines 242-274: inside a plain string.\<close>

definition scan_in_string ::
    "Scanner \<Rightarrow> TSLexer \<Rightarrow> (TokenType \<Rightarrow> bool) \<Rightarrow> outcome + TSLexer" where
  "scan_in_string scanner lx valid_symbols =
     (if in_string scanner then
        if valid_symbols STRING_END \<and> lookahead lx = ch_dquote then
          Inl (True, scanner\<lparr>in_string := False\<rparr>,
               (advance lx)\<lparr>result_symbol := STRING_END\<rparr>)
        else
          (case scan_interpolation_start scanner lx valid_symbols of
             Inl out \<Rightarrow> Inl out
           | Inr lx1 \<Rightarrow>
               (case (if valid_symbols ESCAPE_SEQUENCE then scan_escape_sequence lx1
                      else (False, lx1)) of
                  (True, lx2) \<Rightarrow>
                    Inl (True, scanner, lx2\<lparr>result_symbol := ESCAPE_SEQUENCE\<rparr>)
                | (False, lx2) \<Rightarrow>
                    (case (if valid_symbols STRING_CONTENT then scan_string_content lx2
                           else (False, lx2)) of
                       (True, lx3) \<Rightarrow>
                         Inl (True, scanner, lx3\<lparr>result_symbol := STRING_CONTENT\<rparr>)
                     | (False, lx3) \<Rightarrow> Inr lx3)))
      else Inr lx)"

text \<open>Lines 277-306: inside an indented string.\<close>

definition scan_in_indented_string ::
    "Scanner \<Rightarrow> TSLexer \<Rightarrow> (TokenType \<Rightarrow> bool) \<Rightarrow> outcome + TSLexer" where
  "scan_in_indented_string scanner lx valid_symbols =
     (if in_indented_string scanner then
        (case (if valid_symbols INDENTED_STRING_END \<and> lookahead lx = ch_squote then
                 if lookahead (advance lx) = ch_squote then
                   Inl (True, scanner\<lparr>in_indented_string := False\<rparr>,
                        (advance (advance lx))\<lparr>result_symbol := INDENTED_STRING_END\<rparr>)
                 else Inr (advance lx)
               else Inr lx) of
           Inl out \<Rightarrow> Inl out
         | Inr lx0 \<Rightarrow>
             (case scan_interpolation_start scanner lx0 valid_symbols of
                Inl out \<Rightarrow> Inl out
              | Inr lx1 \<Rightarrow>
                  (case (if valid_symbols INDENTED_STRING_CONTENT
                         then scan_indented_string_content lx1 else (False, lx1)) of
                     (True, lx2) \<Rightarrow>
                       Inl (True, scanner,
                            lx2\<lparr>result_symbol := INDENTED_STRING_CONTENT\<rparr>)
                   | (False, lx2) \<Rightarrow> Inr lx2)))
      else Inr lx)"

text \<open>Lines 309-328: the braces of an open interpolation, and the final \<open>return false\<close>.\<close>

definition scan_interpolation_end ::
    "Scanner \<Rightarrow> TSLexer \<Rightarrow> (TokenType \<Rightarrow> bool) \<Rightarrow> outcome" where
  "scan_interpolation_end scanner lx valid_symbols =
     (if 0 < sint (interpolation_depth scanner) \<and> valid_symbols INTERPOLATION_END then
        if lookahead lx = ch_lbrace then
          (False, scanner\<lparr>brace_depth := brace_depth scanner + 1\<rparr>, advance lx)
        else if lookahead lx = ch_rbrace then
          (if brace_depth scanner - 1 = 0 then
             (True,
              scanner\<lparr>brace_depth := brace_depth scanner - 1,
                      interpolation_depth := interpolation_depth scanner - 1\<rparr>,
              (advance lx)\<lparr>result_symbol := INTERPOLATION_END\<rparr>)
           else
             (False, scanner\<lparr>brace_depth := brace_depth scanner - 1\<rparr>, advance lx))
        else (False, scanner, lx)
      else (False, scanner, lx))"

text \<open>The whole of \<open>tree_sitter_nix_external_scanner_scan\<close>.\<close>

definition scan :: "Scanner \<Rightarrow> TSLexer \<Rightarrow> (TokenType \<Rightarrow> bool) \<Rightarrow> outcome" where
  "scan scanner lexer valid_symbols =
     (let lx0 = (if \<not> in_string scanner \<and> \<not> in_indented_string scanner
                 then skip_whitespace lexer else lexer)
      in case (if valid_symbols COMMENT then scan_comment lx0 else (False, lx0)) of
           (True, lx1) \<Rightarrow> (True, scanner, lx1\<lparr>result_symbol := COMMENT\<rparr>)
         | (False, lx1) \<Rightarrow>
             (case scan_string_start scanner lx1 valid_symbols of
                Inl out \<Rightarrow> out
              | Inr lx2 \<Rightarrow>
                  (case scan_in_string scanner lx2 valid_symbols of
                     Inl out \<Rightarrow> out
                   | Inr lx3 \<Rightarrow>
                       (case scan_in_indented_string scanner lx3 valid_symbols of
                          Inl out \<Rightarrow> out
                        | Inr lx4 \<Rightarrow> scan_interpolation_end scanner lx4 valid_symbols))))"

subsection \<open>Sets of admissible token kinds used in examples\<close>

definition all_valid :: "TokenType \<Rightarrow> bool" where
  "all_valid k = True"

definition only_valid :: "TokenType \<Rightarrow> TokenType \<Rightarrow> bool" where
  "only_valid k k' \<longleftrightarrow> k' = k"

subsection \<open>Running the scanner\<close>


text \<open>
  Scan called repeatedly with every token kind admissible, as C1 describes it. Each
  produced token is recorded with its kind and text and the next call starts right
  after it; the loop stops at the first call that produces nothing (or when the fuel is
  used up) and returns the tokens and the input left over.
\<close>

fun scan_tokens :: "nat \<Rightarrow> Scanner \<Rightarrow> int list \<Rightarrow> (TokenType \<times> int list) list \<times> int list" where
  "scan_tokens 0 scanner inp = ([], inp)"
| "scan_tokens (Suc n) scanner inp =
     (case scan scanner (lexer_at inp) all_valid of
        (True, scanner', lx) \<Rightarrow>
          (case scan_tokens n scanner' (remaining lx) of
             (toks, left) \<Rightarrow> ((result_symbol lx, token_text lx) # toks, left))
      | (False, scanner', lx) \<Rightarrow> ([], inp))"

subsection \<open>Inputs and statements used in the claims\<close>

text \<open>The delimiter of an indented string, two single quotes.\<close>

definition indented_quotes :: "int list" where
  "indented_quotes = [ch_squote, ch_squote]"

text \<open>\<open>has_adjacent a b xs\<close>: the list contains \<open>a\<close> immediately followed by \<open>b\<close>.\<close>

fun has_adjacent :: "int \<Rightarrow> int \<Rightarrow> int list \<Rightarrow> bool" where
  "has_adjacent a b (x # y # zs) \<longleftrightarrow> (x = a \<and> y = b) \<or> has_adjacent a b (y # zs)"
| "has_adjacent a b [x] \<longleftrightarrow> False"
| "has_adjacent a b [] \<longleftrightarrow> False"

text \<open>
  The bodies C1 speaks of: not empty, no two consecutive single quotes, no \<open>${\<close>.
\<close>

definition indented_body_ok :: "int list \<Rightarrow> bool" where
  "indented_body_ok body \<longleftrightarrow>
     body \<noteq> [] \<and> \<not> has_adjacent ch_squote ch_squote body
     \<and> \<not> has_adjacent ch_dollar ch_lbrace body"

text \<open>
  C1 as stated, for one body: scanning opener, body, closer from the zero state gives
  indented-string-start, one or more indented-string-content tokens whose texts
  concatenate to the body, indented-string-end, and nothing is left over.
\<close>

definition indented_string_scans_as_claimed :: "int list \<Rightarrow> bool" where
  "indented_string_scans_as_claimed body =
     (case scan_tokens (length body + 5) scanner_create
             (indented_quotes @ body @ indented_quotes) of
        (toks, left) \<Rightarrow>
          left = [] \<and> 3 \<le> length toks
          \<and> hd toks = (INDENTED_STRING_START, indented_quotes)
          \<and> last toks = (INDENTED_STRING_END, indented_quotes)
          \<and> map fst (butlast (tl toks))
              = replicate (length toks - 2) INDENTED_STRING_CONTENT
          \<and> concat (map snd (butlast (tl toks))) = body)"

text \<open>
  Where a run of string content has to stop: at the end of the input (or the sentinel
  0), before a double quote, before a backslash, or before \<open>${\<close>.
\<close>

definition content_stop :: "int list \<Rightarrow> bool" where
  "content_stop unread \<longleftrightarrow>
     (case unread of
        [] \<Rightarrow> True
      | c # others \<Rightarrow>
          c = 0 \<or> c = ch_dquote \<or> c = ch_backslash
          \<or> (c = ch_dollar \<and> (case others of [] \<Rightarrow> False | d # _ \<Rightarrow> d = ch_lbrace)))"

text \<open>
  What a run of string content may hold: no double quote, no backslash, no sentinel,
  and no \<open>$\<close> immediately followed by \<open>{\<close>.
\<close>

definition content_run :: "int list \<Rightarrow> bool" where
  "content_run run \<longleftrightarrow>
     ch_dquote \<notin> set run \<and> ch_backslash \<notin> set run \<and> 0 \<notin> set run
     \<and> \<not> has_adjacent ch_dollar ch_lbrace run"


subsection \<open>The return sites of the scan function\<close>

text \<open>
  What a call leaves behind apart from the lexer position: whether a token was produced,
  the scanner state, and the kind stored in \<open>result_symbol\<close>.
\<close>

definition effect :: "outcome \<Rightarrow> bool \<times> Scanner \<times> TokenType" where
  "effect out = (fst out, fst (snd out), result_symbol (snd (snd out)))"

text \<open>
  Every \<open>return\<close> of the scan function, with the guards that lead to it and the effect
  it has. Where no token is produced the source does not assign \<open>result_symbol\<close>, so
  any kind may stand there. Properties of all scan calls follow by case analysis on
  this relation.
\<close>

inductive scan_site ::
    "Scanner \<Rightarrow> (TokenType \<Rightarrow> bool) \<Rightarrow> bool \<times> Scanner \<times> TokenType \<Rightarrow> bool"
  for sc :: Scanner and v :: "TokenType \<Rightarrow> bool" where
  site_comment:
    "v COMMENT \<Longrightarrow> scan_site sc v (True, sc, COMMENT)"
| site_string_start:
    "\<not> in_string sc \<Longrightarrow> \<not> in_indented_string sc \<Longrightarrow> v STRING_START \<Longrightarrow>
     scan_site sc v (True, sc\<lparr>in_string := True\<rparr>, STRING_START)"
| site_indented_string_start:
    "\<not> in_string sc \<Longrightarrow> \<not> in_indented_string sc \<Longrightarrow> v INDENTED_STRING_START \<Longrightarrow>
     scan_site sc v (True, sc\<lparr>in_indented_string := True\<rparr>, INDENTED_STRING_START)"
| site_string_end:
    "in_string sc \<Longrightarrow> v STRING_END \<Longrightarrow>
     scan_site sc v (True, sc\<lparr>in_string := False\<rparr>, STRING_END)"
| site_interpolation_start:
    "in_string sc \<or> in_indented_string sc \<Longrightarrow> v INTERPOLATION_START \<Longrightarrow>
     scan_site sc v (True,
                     sc\<lparr>interpolation_depth := interpolation_depth sc + 1, brace_depth := 1\<rparr>,
                     INTERPOLATION_START)"
| site_escape_sequence:
    "in_string sc \<Longrightarrow> v ESCAPE_SEQUENCE \<Longrightarrow>
     scan_site sc v (True, sc, ESCAPE_SEQUENCE)"
| site_string_content:
    "in_string sc \<Longrightarrow> v STRING_CONTENT \<Longrightarrow>
     scan_site sc v (True, sc, STRING_CONTENT)"
| site_indented_string_end:
    "in_indented_string sc \<Longrightarrow> v INDENTED_STRING_END \<Longrightarrow>
     scan_site sc v (True, sc\<lparr>in_indented_string := False\<rparr>, INDENTED_STRING_END)"
| site_indented_string_content:
    "in_indented_string sc \<Longrightarrow> v INDENTED_STRING_CONTENT \<Longrightarrow>
     scan_site sc v (True, sc, INDENTED_STRING_CONTENT)"
| site_open_brace:
    "0 < sint (interpolation_depth sc) \<Longrightarrow> v INTERPOLATION_END \<Longrightarrow>
     scan_site sc v (False, sc\<lparr>brace_depth := brace_depth sc + 1\<rparr>, k)"
| site_interpolation_end:
    "0 < sint (interpolation_depth sc) \<Longrightarrow> v INTERPOLATION_END \<Longrightarrow>
     brace_depth sc - 1 = 0 \<Longrightarrow>
     scan_site sc v (True,
                     sc\<lparr>brace_depth := brace_depth sc - 1,
                        interpolation_depth := interpolation_depth sc - 1\<rparr>,
                     INTERPOLATION_END)"
| site_close_brace:
    "0 < sint (interpolation_depth sc) \<Longrightarrow> v INTERPOLATION_END \<Longrightarrow>
     brace_depth sc - 1 \<noteq> 0 \<Longrightarrow>
     scan_site sc v (False, sc\<lparr>brace_depth := brace_depth sc - 1\<rparr>, k)"
| site_no_token:
    "scan_site sc v (False, sc, k)"

code_pred scan_site .

section \<open>Properties\<close>

text \<open>The loops are unfolded one step at a time, where a proof asks for it.\<close>

declare skip_whitespace.simps [simp del]
declare scan_string_content_loop.simps [simp del]
declare scan_indented_string_content_loop.simps [simp del]
declare line_comment_loop.simps [simp del]
declare block_comment_loop.simps [simp del]

subsection \<open>Every outcome of scan comes from one of the return sites\<close>

lemma scan_string_start_site:
  "scan_string_start sc lx v = Inl out \<Longrightarrow> scan_site sc v (effect out)"
  by (auto simp: scan_string_start_def effect_def split: if_splits intro: scan_site.intros)

lemma scan_interpolation_start_site:
  "scan_interpolation_start sc lx v = Inl out \<Longrightarrow> in_string sc \<or> in_indented_string sc
   \<Longrightarrow> scan_site sc v (effect out)"
  by (auto simp: scan_interpolation_start_def effect_def split: if_splits
        intro: scan_site.intros)

lemma scan_interpolation_end_site:
  "scan_site sc v (effect (scan_interpolation_end sc lx v))"
proof (cases "0 < sint (interpolation_depth sc) \<and> v INTERPOLATION_END")
  case False
  then have "scan_interpolation_end sc lx v = (False, sc, lx)"
    by (auto simp: scan_interpolation_end_def)
  then show ?thesis by (simp add: effect_def site_no_token)
next
  case g: True
  show ?thesis
  proof (cases "lookahead lx = ch_lbrace")
    case True
    with g have "scan_interpolation_end sc lx v =
        (False, sc\<lparr>brace_depth := brace_depth sc + 1\<rparr>, advance lx)"
      by (simp add: scan_interpolation_end_def)
    then have "effect (scan_interpolation_end sc lx v) =
        (False, sc\<lparr>brace_depth := brace_depth sc + 1\<rparr>, result_symbol (advance lx))"
      by (simp add: effect_def)
    moreover from g have "scan_site sc v
        (False, sc\<lparr>brace_depth := brace_depth sc + 1\<rparr>, result_symbol (advance lx))"
      by (intro site_open_brace) simp_all
    ultimately show ?thesis by (simp only:)
  next
    case nl: False
    show ?thesis
    proof (cases "lookahead lx = ch_rbrace")
      case False
      with g nl have "scan_interpolation_end sc lx v = (False, sc, lx)"
        by (simp add: scan_interpolation_end_def)
      then show ?thesis by (simp add: effect_def site_no_token)
    next
      case r: True
      show ?thesis
      proof (cases "brace_depth sc - 1 = 0")
        case True
        with g r have "scan_interpolation_end sc lx v =
            (True,
             sc\<lparr>brace_depth := brace_depth sc - 1,
                interpolation_depth := interpolation_depth sc - 1\<rparr>,
             (advance lx)\<lparr>result_symbol := INTERPOLATION_END\<rparr>)"
          by (simp add: scan_interpolation_end_def)
        then have "effect (scan_interpolation_end sc lx v) =
            (True,
             sc\<lparr>brace_depth := brace_depth sc - 1,
                interpolation_depth := interpolation_depth sc - 1\<rparr>,
             INTERPOLATION_END)"
          by (simp add: effect_def)
        moreover from g True have "scan_site sc v
            (True,
             sc\<lparr>brace_depth := brace_depth sc - 1,
                interpolation_depth := interpolation_depth sc - 1\<rparr>,
             INTERPOLATION_END)"
          by (intro site_interpolation_end) simp_all
        ultimately show ?thesis by (simp only:)
      next
        case False
        with g r have "scan_interpolation_end sc lx v =
            (False, sc\<lparr>brace_depth := brace_depth sc - 1\<rparr>, advance lx)"
          by (simp add: scan_interpolation_end_def)
        then have "effect (scan_interpolation_end sc lx v) =
            (False, sc\<lparr>brace_depth := brace_depth sc - 1\<rparr>, result_symbol (advance lx))"
          by (simp add: effect_def)
        moreover from g False have "scan_site sc v
            (False, sc\<lparr>brace_depth := brace_depth sc - 1\<rparr>, result_symbol (advance lx))"
          by (intro site_close_brace) simp_all
        ultimately show ?thesis by (simp only:)
      qed
    qed
  qed
qed

lemma scan_in_string_site:
  assumes h: "scan_in_string sc lx v = Inl out"
  shows "scan_site sc v (effect out)"
proof -
  from h have ins: "in_string sc" by (auto simp: scan_in_string_def split: if_splits)
  show ?thesis
  proof (cases "v STRING_END \<and> lookahead lx = ch_dquote")
    case True
    with h ins show ?thesis
      by (auto simp: scan_in_string_def effect_def intro: site_string_end)
  next
    case ne: False
    show ?thesis
    proof (cases "scan_interpolation_start sc lx v")
      case (Inl res)
      with h ins ne have "out = res" by (auto simp: scan_in_string_def)
      with Inl ins show ?thesis by (simp add: scan_interpolation_start_site)
    next
      case (Inr lx1)
      obtain e lx2 where e: "(if v ESCAPE_SEQUENCE then scan_escape_sequence lx1
                      else (False, lx1)) = (e, lx2)" by (rule prod.exhaust)
      show ?thesis
      proof (cases e)
        case True
        from True e have "v ESCAPE_SEQUENCE" by (cases "v ESCAPE_SEQUENCE") simp_all
        moreover from h ins ne Inr True
        have "out = (True, sc, lx2\<lparr>result_symbol := ESCAPE_SEQUENCE\<rparr>)"
          unfolding scan_in_string_def by (simp add: e)
        ultimately show ?thesis using ins by (simp add: effect_def site_escape_sequence)
      next
        case ef: False
        obtain c lx3 where c: "(if v STRING_CONTENT then scan_string_content lx2
                           else (False, lx2)) = (c, lx3)" by (rule prod.exhaust)
        show ?thesis
        proof (cases c)
          case True
          from True c have "v STRING_CONTENT" by (cases "v STRING_CONTENT") simp_all
          moreover from h ins ne Inr ef True
          have "out = (True, sc, lx3\<lparr>result_symbol := STRING_CONTENT\<rparr>)"
            unfolding scan_in_string_def by (simp add: e c)
          ultimately show ?thesis using ins by (simp add: effect_def site_string_content)
        next
          case False
          with h ins ne Inr ef have False
            unfolding scan_in_string_def by (simp add: e c)
          then show ?thesis ..
        qed
      qed
    qed
  qed
qed

lemma scan_in_indented_string_site:
  assumes h: "scan_in_indented_string sc lx v = Inl out"
  shows "scan_site sc v (effect out)"
proof -
  from h have ins: "in_indented_string sc"
    by (auto simp: scan_in_indented_string_def split: if_splits)
  define first where "first =
     (if v INDENTED_STRING_END \<and> lookahead lx = ch_squote then
        if lookahead (advance lx) = ch_squote then
          Inl (True, sc\<lparr>in_indented_string := False\<rparr>,
               (advance (advance lx))\<lparr>result_symbol := INDENTED_STRING_END\<rparr>)
        else Inr (advance lx)
      else (Inr lx :: outcome + TSLexer))"
  have unf: "scan_in_indented_string sc lx v =
     (case first of
        Inl out \<Rightarrow> Inl out
      | Inr lx0 \<Rightarrow>
          (case scan_interpolation_start sc lx0 v of
             Inl out \<Rightarrow> Inl out
           | Inr lx1 \<Rightarrow>
               (case (if v INDENTED_STRING_CONTENT
                      then scan_indented_string_content lx1 else (False, lx1)) of
                  (True, lx2) \<Rightarrow>
                    Inl (True, sc, lx2\<lparr>result_symbol := INDENTED_STRING_CONTENT\<rparr>)
                | (False, lx2) \<Rightarrow> Inr lx2)))"
    unfolding scan_in_indented_string_def first_def using ins by simp
  show ?thesis
  proof (cases first)
    case (Inl res)
    with h unf have "out = res" by simp
    moreover from Inl ins have "scan_site sc v (effect res)"
      by (auto simp: first_def effect_def split: if_splits intro: site_indented_string_end)
    ultimately show ?thesis by simp
  next
    case f: (Inr lx0)
    show ?thesis
    proof (cases "scan_interpolation_start sc lx0 v")
      case (Inl res)
      with h unf f have "out = res" by simp
      with Inl ins show ?thesis by (simp add: scan_interpolation_start_site)
    next
      case (Inr lx1)
      obtain c lx2 where c: "(if v INDENTED_STRING_CONTENT
                      then scan_indented_string_content lx1 else (False, lx1)) = (c, lx2)"
        by (rule prod.exhaust)
      show ?thesis
      proof (cases c)
        case True
        from True c have "v INDENTED_STRING_CONTENT"
          by (cases "v INDENTED_STRING_CONTENT") simp_all
        moreover from h f Inr True
        have "out = (True, sc, lx2\<lparr>result_symbol := INDENTED_STRING_CONTENT\<rparr>)"
          unfolding unf by (simp add: c)
        ultimately show ?thesis using ins
          by (simp add: effect_def site_indented_string_content)
      next
        case False
        with h f Inr have False unfolding unf by (simp add: c)
        then show ?thesis ..
      qed
    qed
  qed
qed

lemma scan_site: "scan_site sc v (effect (scan sc lx v))"
proof -
  define lx0 where "lx0 = (if \<not> in_string sc \<and> \<not> in_indented_string sc
                 then skip_whitespace lx else lx)"
  obtain c lx1 where c: "(if v COMMENT then scan_comment lx0 else (False, lx0)) = (c, lx1)"
    by (rule prod.exhaust)
  have unf: "scan sc lx v =
     (case (c, lx1) of
           (True, lx1) \<Rightarrow> (True, sc, lx1\<lparr>result_symbol := COMMENT\<rparr>)
         | (False, lx1) \<Rightarrow>
             (case scan_string_start sc lx1 v of
                Inl out \<Rightarrow> out
              | Inr lx2 \<Rightarrow>
                  (case scan_in_string sc lx2 v of
                     Inl out \<Rightarrow> out
                   | Inr lx3 \<Rightarrow>
                       (case scan_in_indented_string sc lx3 v of
                          Inl out \<Rightarrow> out
                        | Inr lx4 \<Rightarrow> scan_interpolation_end sc lx4 v))))"
    unfolding scan_def Let_def lx0_def [symmetric] c ..
  show ?thesis
  proof (cases c)
    case True
    with c have "v COMMENT" by (cases "v COMMENT") simp_all
    with True show ?thesis unfolding unf by (simp add: effect_def site_comment)
  next
    case False
    then show ?thesis
      unfolding unf
      by (simp add: scan_string_start_site scan_in_string_site scan_in_indented_string_site
            scan_interpolation_end_site split: sum.split)
  qed
qed

subsection \<open>Conversions between bytes and fields\<close>

lemma ucast_scast_char: "ucast (scast (c :: c_char) :: c_int) = c"
proof -
  have d: "is_down (ucast :: c_int \<Rightarrow> c_char)" by (simp add: is_down)
  have u: "is_up (scast :: c_char \<Rightarrow> c_int)" by (simp add: is_up)
  show ?thesis by (simp only: down_cast_same [OF d] scast_up_scast_id [OF u])
qed

lemma ucast_ucast_char: "ucast (ucast (c :: c_char) :: c_int) = c"
proof -
  have u: "is_up (ucast :: c_char \<Rightarrow> c_int)" by (simp add: is_up)
  show ?thesis by (rule ucast_up_ucast_id [OF u])
qed

lemma char_le_1: "(c :: c_char) \<le> 1 \<Longrightarrow> c = 0 \<or> c = 1"
proof -
  assume "c \<le> 1"
  then have "unat c \<le> 1" by (simp add: word_le_nat_alt)
  then have "unat c = 0 \<or> unat c = 1" by arith
  then show ?thesis
  proof
    assume "unat c = 0" then show ?thesis by (simp add: unat_eq_zero)
  next
    assume "unat c = 1"
    then have "word_of_nat (unat c) = (1 :: c_char)" by simp
    then show ?thesis by simp
  qed
qed
lemma int_to_char_char_to_int: "int_to_char (char_to_int char_signed c) = c"
  by (simp add: int_to_char_def char_to_int_def ucast_scast_char ucast_ucast_char)

lemma bool_to_char_char_to_bool: "c \<le> 1 \<Longrightarrow> bool_to_char (char_to_bool c) = c"
  using char_le_1 [of c] by (auto simp: bool_to_char_def char_to_bool_def)

subsection \<open>Serialization\<close>

text \<open>
  C2, as amended. The claim says that a buffer of fewer than 5 bytes resets the state to
  the zero default whatever it held. The source only guards the five assignments with
  \<open>length >= 5\<close>: on a shorter buffer the state is left exactly as it was, so it is the
  zero default afterwards precisely when it was before.
\<close>

theorem deserialize_short_buffer_keeps_state:
  "length buffer < 5 \<Longrightarrow>
     deserialize char_signed scanner buffer = scanner
     \<and> (deserialize char_signed scanner buffer = scanner_create
          \<longleftrightarrow> scanner = scanner_create)"
  by (simp add: deserialize_def)

theorem deserialize_short_buffer_keeps_state_witness:
  "length ([1, 0] :: c_char list) < 5
   \<and> deserialize False scanner_create [1, 0] = scanner_create"
  using deserialize_short_buffer_keeps_state [of "[1, 0]" False scanner_create]
  by simp

text \<open>
  C2 as stated fails: a state inside a string, given the empty buffer, is still inside
  the string afterwards.
\<close>

theorem deserialize_short_buffer_not_reset:
  "deserialize True (scanner_create\<lparr>in_string := True\<rparr>) [] \<noteq> scanner_create"
  by (simp add: deserialize_def scanner_create_def)

text \<open>
  C8: for a 5-byte buffer whose two boolean bytes are 0 or 1, serializing the state that
  deserialize builds from it gives back the same five bytes, in the order in_string,
  in_indented_string, interpolation_depth, paren_depth, brace_depth, and the length 5.
  This holds for every counter byte, whether plain \<open>char\<close> is signed or not, and whatever
  the state held before.
\<close>

theorem serialize_deserialize_roundtrip:
  assumes "length buffer = 5" and "buffer ! 0 \<le> 1" and "buffer ! 1 \<le> 1"
  shows "serialize (deserialize char_signed scanner buffer) = (buffer, 5)
         \<and> serialize (deserialize char_signed scanner buffer) =
             ([bool_to_char (in_string (deserialize char_signed scanner buffer)),
               bool_to_char (in_indented_string (deserialize char_signed scanner buffer)),
               int_to_char (interpolation_depth (deserialize char_signed scanner buffer)),
               int_to_char (paren_depth (deserialize char_signed scanner buffer)),
               int_to_char (brace_depth (deserialize char_signed scanner buffer))], 5)"
proof -
  from assms(1) obtain b0 b1 b2 b3 b4 where b: "buffer = [b0, b1, b2, b3, b4]"
    by (auto simp: length_Suc_conv eval_nat_numeral)
  with assms have "serialize (deserialize char_signed scanner buffer) = (buffer, 5)"
    by (simp add: serialize_def deserialize_def int_to_char_char_to_int
          bool_to_char_char_to_bool)
  then show ?thesis by (simp add: serialize_def)
qed

theorem serialize_deserialize_roundtrip_witness:
  "serialize (deserialize True (scanner_create\<lparr>in_string := True\<rparr>) [0, 1, 2, 0, 200])
     = ([0, 1, 2, 0, 200], 5)"
  using serialize_deserialize_roundtrip
          [of "[0, 1, 2, 0, 200]" True "scanner_create\<lparr>in_string := True\<rparr>"]
  by simp

subsection \<open>Token kinds and mode flags\<close>

text \<open>
  C9: when a scan call reports a token, the kind it stored in \<open>result_symbol\<close> is one
  the caller marked admissible, for every scanner state, lexer and admissible set.
\<close>

theorem scan_emits_only_valid_symbols:
  "scan scanner lexer valid_symbols = (True, scanner', lexer')
   \<Longrightarrow> valid_symbols (result_symbol lexer')"
  using scan_site [of scanner valid_symbols lexer]
  by (auto simp: effect_def elim!: scan_site.cases)

theorem scan_emits_only_valid_symbols_witness:
  "scan scanner_create (lexer_at [ch_dquote]) (only_valid STRING_START) =
     (True, scanner_create\<lparr>in_string := True\<rparr>,
      \<lparr>consumed = [ch_dquote], rest = [], token_start = 0, marked_end = None,
       result_symbol = STRING_START\<rparr>)
   \<and> only_valid STRING_START STRING_START"
proof -
  have call: "scan scanner_create (lexer_at [ch_dquote]) (only_valid STRING_START) =
     (True, scanner_create\<lparr>in_string := True\<rparr>,
      \<lparr>consumed = [ch_dquote], rest = [], token_start = 0, marked_end = None,
       result_symbol = STRING_START\<rparr>)"
    by code_simp
  from scan_emits_only_valid_symbols [OF call] call show ?thesis by simp
qed

text \<open>
  C10: a scan call that reports no token leaves \<open>in_string\<close> and
  \<open>in_indented_string\<close> as they were at entry (the depth counters may change).
\<close>

theorem scan_failure_keeps_mode:
  "scan scanner lexer valid_symbols = (False, scanner', lexer')
   \<Longrightarrow> in_string scanner' = in_string scanner
       \<and> in_indented_string scanner' = in_indented_string scanner"
  using scan_site [of scanner valid_symbols lexer]
  by (auto simp: effect_def elim!: scan_site.cases)

theorem scan_failure_keeps_mode_witness:
  "scan (scanner_create\<lparr>in_string := True, interpolation_depth := 1, brace_depth := 1\<rparr>)
        (lexer_at [ch_lbrace]) (only_valid INTERPOLATION_END) =
     (False,
      scanner_create\<lparr>in_string := True, interpolation_depth := 1, brace_depth := 2\<rparr>,
      \<lparr>consumed = [ch_lbrace], rest = [], token_start = 0, marked_end = None,
       result_symbol = STRING_START\<rparr>)
   \<and> in_string (scanner_create\<lparr>in_string := True, interpolation_depth := 1,
                                  brace_depth := 2\<rparr>)
       = in_string (scanner_create\<lparr>in_string := True, interpolation_depth := 1,
                                    brace_depth := 1\<rparr>)"
proof -
  have call:
    "scan (scanner_create\<lparr>in_string := True, interpolation_depth := 1, brace_depth := 1\<rparr>)
        (lexer_at [ch_lbrace]) (only_valid INTERPOLATION_END) =
     (False,
      scanner_create\<lparr>in_string := True, interpolation_depth := 1, brace_depth := 2\<rparr>,
      \<lparr>consumed = [ch_lbrace], rest = [], token_start = 0, marked_end = None,
       result_symbol = STRING_START\<rparr>)"
    by code_simp
  from scan_failure_keeps_mode [OF call] call show ?thesis by simp
qed

subsection \<open>Calls that fall through the early blocks\<close>

lemma skip_whitespace_none:
  "\<not> is_whitespace (lookahead lx) \<Longrightarrow> skip_whitespace lx = lx"
  by (simp add: skip_whitespace.simps)

lemma scan_comment_none:
  "lookahead lx \<noteq> ch_hash \<Longrightarrow> lookahead lx \<noteq> ch_slash \<Longrightarrow> scan_comment lx = (False, lx)"
  by (simp add: scan_comment_def)

lemma scan_string_start_none:
  "lookahead lx \<noteq> ch_dquote \<Longrightarrow> lookahead lx \<noteq> ch_squote
   \<Longrightarrow> scan_string_start sc lx v = Inr lx"
  by (simp add: scan_string_start_def)

lemma scan_interpolation_start_none:
  "lookahead lx \<noteq> ch_dollar \<Longrightarrow> scan_interpolation_start sc lx v = Inr lx"
  by (simp add: scan_interpolation_start_def)

lemma scan_escape_sequence_none:
  "lookahead lx \<noteq> ch_backslash \<Longrightarrow> scan_escape_sequence lx = (False, lx)"
  by (simp add: scan_escape_sequence_def)

lemma scan_in_string_none:
  "lookahead lx \<noteq> ch_dquote \<Longrightarrow> lookahead lx \<noteq> ch_dollar \<Longrightarrow>
   lookahead lx \<noteq> ch_backslash \<Longrightarrow> \<not> (in_string sc \<and> v STRING_CONTENT) \<Longrightarrow>
   scan_in_string sc lx v = Inr lx"
  by (simp add: scan_in_string_def scan_interpolation_start_none scan_escape_sequence_none)

lemma scan_in_indented_string_none:
  "lookahead lx \<noteq> ch_squote \<Longrightarrow> lookahead lx \<noteq> ch_dollar \<Longrightarrow>
   \<not> (in_indented_string sc \<and> v INDENTED_STRING_CONTENT) \<Longrightarrow>
   scan_in_indented_string sc lx v = Inr lx"
  by (simp add: scan_in_indented_string_def scan_interpolation_start_none)

lemma scan_at_brace:
  assumes "lookahead lx = ch_lbrace \<or> lookahead lx = ch_rbrace"
    and "\<not> (in_string sc \<and> v STRING_CONTENT)"
    and "\<not> (in_indented_string sc \<and> v INDENTED_STRING_CONTENT)"
  shows "scan sc lx v = scan_interpolation_end sc lx v"
proof -
  from assms(1) have ws: "\<not> is_whitespace (lookahead lx)"
    by (auto simp: is_whitespace_def)
  from assms(1) have c: "scan_comment lx = (False, lx)"
    by (auto intro: scan_comment_none)
  from assms(1) have s: "scan_string_start sc lx v = Inr lx"
    by (auto intro: scan_string_start_none)
  from assms have i: "scan_in_string sc lx v = Inr lx"
    by (auto intro: scan_in_string_none)
  from assms have j: "scan_in_indented_string sc lx v = Inr lx"
    by (auto intro: scan_in_indented_string_none)
  show ?thesis
    by (simp add: scan_def skip_whitespace_none [OF ws] c s i j)
qed

lemma position_advance:
  "lookahead lx \<noteq> 0 \<Longrightarrow> position (advance lx) = position lx + 1"
  by (cases "rest lx") (simp_all add: lookahead_def advance_def position_def)

lemma advance_twice:
  "rest lx = a # b # unread \<Longrightarrow>
   advance (advance lx) = lx\<lparr>consumed := consumed lx @ [a, b], rest := unread\<rparr>"
  by (simp add: advance_def)

lemma lookahead_Cons: "rest lx = a # unread \<Longrightarrow> lookahead lx = a"
  by (simp add: lookahead_def)

lemma lookahead_advance: "rest lx = a # b # unread \<Longrightarrow> lookahead (advance lx) = b"
  by (simp add: lookahead_def advance_def)

subsection \<open>Interpolations\<close>

text \<open>
  C3, as amended. With \<open>interpolation_depth > 0\<close> and interpolation-end admissible, and
  provided no content rule claims the character first (string-content is not admissible
  while in a plain string, indented-string-content is not admissible while in an
  indented string): a call whose lookahead is \<open>{\<close> adds 1 to \<open>brace_depth\<close>, advances
  over that one character and produces no token; a call whose lookahead is \<open>}\<close>
  subtracts 1 from \<open>brace_depth\<close>, advances over that one character, and exactly when
  the new \<open>brace_depth\<close> is 0 it also subtracts 1 from \<open>interpolation_depth\<close> and
  produces the interpolation-end token; otherwise it produces no token.
\<close>

theorem interpolation_brace_tracking:
  assumes "0 < sint (interpolation_depth scanner)"
    and "valid_symbols INTERPOLATION_END"
    and "\<not> (in_string scanner \<and> valid_symbols STRING_CONTENT)"
    and "\<not> (in_indented_string scanner \<and> valid_symbols INDENTED_STRING_CONTENT)"
    and "lookahead lexer = ch_lbrace \<or> lookahead lexer = ch_rbrace"
  shows "scan scanner lexer valid_symbols =
           (if lookahead lexer = ch_lbrace then
              (False, scanner\<lparr>brace_depth := brace_depth scanner + 1\<rparr>, advance lexer)
            else if brace_depth scanner - 1 = 0 then
              (True,
               scanner\<lparr>brace_depth := brace_depth scanner - 1,
                       interpolation_depth := interpolation_depth scanner - 1\<rparr>,
               (advance lexer)\<lparr>result_symbol := INTERPOLATION_END\<rparr>)
            else
              (False, scanner\<lparr>brace_depth := brace_depth scanner - 1\<rparr>, advance lexer))
         \<and> position (advance lexer) = position lexer + 1"
proof -
  from assms(5) have "lookahead lexer \<noteq> 0" by auto
  then have "position (advance lexer) = position lexer + 1" by (rule position_advance)
  moreover have "scan scanner lexer valid_symbols =
      scan_interpolation_end scanner lexer valid_symbols"
    using assms(5,3,4) by (rule scan_at_brace)
  ultimately show ?thesis
    using assms(1,2,5) by (auto simp: scan_interpolation_end_def)
qed

theorem interpolation_brace_tracking_witness:
  "scan (scanner_create\<lparr>in_string := True, interpolation_depth := 1, brace_depth := 1\<rparr>)
        (lexer_at [ch_rbrace, 120]) (only_valid INTERPOLATION_END) =
     (True,
      scanner_create\<lparr>in_string := True, interpolation_depth := 0, brace_depth := 0\<rparr>,
      \<lparr>consumed = [ch_rbrace], rest = [120], token_start = 0, marked_end = None,
       result_symbol = INTERPOLATION_END\<rparr>)
   \<and> position (advance (lexer_at [ch_rbrace, 120])) = position (lexer_at [ch_rbrace, 120]) + 1"
  using interpolation_brace_tracking
          [of "scanner_create\<lparr>in_string := True, interpolation_depth := 1, brace_depth := 1\<rparr>"
              "only_valid INTERPOLATION_END" "lexer_at [ch_rbrace, 120]"]
  by (simp add: scanner_create_def only_valid_def lexer_at_def lookahead_def advance_def)

text \<open>
  C3 as stated fails: inside a plain string with every kind admissible, the \<open>{\<close> is
  taken by the string-content rule, which comes first: a token is produced and
  \<open>brace_depth\<close> stays 1.
\<close>

theorem brace_taken_as_string_content:
  "scan (scanner_create\<lparr>in_string := True, interpolation_depth := 1, brace_depth := 1\<rparr>)
        (lexer_at [ch_lbrace]) all_valid =
     (True,
      scanner_create\<lparr>in_string := True, interpolation_depth := 1, brace_depth := 1\<rparr>,
      \<lparr>consumed = [ch_lbrace], rest = [], token_start = 0, marked_end = Some 1,
       result_symbol = STRING_CONTENT\<rparr>)"
  by code_simp

text \<open>
  C7, as amended. Inside a plain or an indented string, when the unread input starts
  with \<open>${\<close> and interpolation-start is admissible, the call advances over exactly
  these two characters, adds 1 to \<open>interpolation_depth\<close>, sets \<open>brace_depth\<close> to 1 and
  produces the interpolation-start token.
\<close>

theorem interpolation_start_in_string:
  assumes r: "rest lexer = ch_dollar # ch_lbrace # unread"
    and v: "valid_symbols INTERPOLATION_START"
    and m: "in_string scanner \<or> in_indented_string scanner"
  shows "scan scanner lexer valid_symbols =
           (True,
            scanner\<lparr>interpolation_depth := interpolation_depth scanner + 1,
                    brace_depth := 1\<rparr>,
            lexer\<lparr>consumed := consumed lexer @ [ch_dollar, ch_lbrace], rest := unread,
                  result_symbol := INTERPOLATION_START\<rparr>)"
proof -
  have l: "lookahead lexer = ch_dollar" using r by (rule lookahead_Cons)
  have l2: "lookahead (advance lexer) = ch_lbrace" using r by (rule lookahead_advance)
  have c: "scan_comment lexer = (False, lexer)" using l by (simp add: scan_comment_none)
  have s: "scan_string_start scanner lexer valid_symbols = Inr lexer"
    using l by (simp add: scan_string_start_none)
  have i: "scan_interpolation_start scanner lexer valid_symbols =
      Inl (True,
           scanner\<lparr>interpolation_depth := interpolation_depth scanner + 1,
                   brace_depth := 1\<rparr>,
           (advance (advance lexer))\<lparr>result_symbol := INTERPOLATION_START\<rparr>)"
    using l l2 v by (simp add: scan_interpolation_start_def)
  have "scan scanner lexer valid_symbols =
      (True,
       scanner\<lparr>interpolation_depth := interpolation_depth scanner + 1,
               brace_depth := 1\<rparr>,
       (advance (advance lexer))\<lparr>result_symbol := INTERPOLATION_START\<rparr>)"
  proof (cases "in_string scanner")
    case True
    then have "scan_in_string scanner lexer valid_symbols =
      Inl (True,
           scanner\<lparr>interpolation_depth := interpolation_depth scanner + 1,
                   brace_depth := 1\<rparr>,
           (advance (advance lexer))\<lparr>result_symbol := INTERPOLATION_START\<rparr>)"
      using l by (simp add: scan_in_string_def i)
    with True show ?thesis by (simp add: scan_def c s)
  next
    case False
    with m have ind: "in_indented_string scanner" by simp
    from False have "scan_in_string scanner lexer valid_symbols = Inr lexer"
      by (simp add: scan_in_string_def)
    moreover from ind have "scan_in_indented_string scanner lexer valid_symbols =
      Inl (True,
           scanner\<lparr>interpolation_depth := interpolation_depth scanner + 1,
                   brace_depth := 1\<rparr>,
           (advance (advance lexer))\<lparr>result_symbol := INTERPOLATION_START\<rparr>)"
      using l by (simp add: scan_in_indented_string_def i)
    ultimately show ?thesis using ind by (simp add: scan_def c s)
  qed
  then show ?thesis by (simp add: advance_twice [OF r])
qed

theorem interpolation_start_in_string_witness:
  "scan (scanner_create\<lparr>in_string := True\<rparr>) (lexer_at [ch_dollar, ch_lbrace, 120])
        (only_valid INTERPOLATION_START) =
     (True,
      scanner_create\<lparr>in_string := True, interpolation_depth := 1, brace_depth := 1\<rparr>,
      \<lparr>consumed = [ch_dollar, ch_lbrace], rest = [120], token_start = 0,
       marked_end = None, result_symbol = INTERPOLATION_START\<rparr>)"
  using interpolation_start_in_string
          [of "lexer_at [ch_dollar, ch_lbrace, 120]" "[120]"
              "only_valid INTERPOLATION_START" "scanner_create\<lparr>in_string := True\<rparr>"]
  by (simp add: lexer_at_def only_valid_def scanner_create_def)

text \<open>
  C7 as stated fails: outside any string the check for \<open>${\<close> is never reached, so from
  the zero state nothing is consumed and no token is produced.
\<close>

theorem interpolation_start_outside_string:
  "scan scanner_create (lexer_at [ch_dollar, ch_lbrace]) all_valid =
     (False, scanner_create, lexer_at [ch_dollar, ch_lbrace])"
  by code_simp

subsection \<open>Reachable states\<close>










subsection \<open>Indented strings\<close>

text \<open>
  C1 says that opener, body and closer scan as indented-string-start, content tokens
  whose texts concatenate to the body (a lone quote inside the body being content),
  and indented-string-end, consuming exactly the delimited span. The code does not
  keep to it. On the body \<open>a\<close>, that is the input \<open>''a''\<close>, the content loop calls
  \<open>mark_end\<close> after the first quote of the closer, before it sees the second one and
  returns: the content token is \<open>a'\<close>, not \<open>a\<close>. The next call starts at the single
  quote that is left, finds no second quote, and produces no token, so no
  indented-string-end is ever produced and one character is left over.
\<close>

theorem indented_string_closing_quote_in_content:
  "indented_body_ok [97]
   \<and> \<not> indented_string_scans_as_claimed [97]
   \<and> scan_tokens 6 scanner_create (indented_quotes @ [97] @ indented_quotes) =
       ([(INDENTED_STRING_START, [ch_squote, ch_squote]),
         (INDENTED_STRING_CONTENT, [97, ch_squote])], [ch_squote])"
  by code_simp

text \<open>One step of the lexer, used further on.\<close>

lemma advance_Cons:
  "rest lx = a # unread \<Longrightarrow>
   advance lx = lx\<lparr>consumed := consumed lx @ [a], rest := unread\<rparr>"
  by (simp add: advance_def)

subsection \<open>Characters left in the token by a failed check\<close>

text \<open>
  C5 says that the text of a string-content token is a maximal run of characters with
  no double quote, no backslash and no \<open>${\<close>. The code does not keep to it: inside
  a plain string, every kind admissible, at the three characters backslash, \<open>q\<close>,
  double quote, the escape check advances over the backslash and finds no escape; the
  content scan that follows in the same call then produces a string-content token
  whose text is the backslash and the \<open>q\<close>.
\<close>

theorem string_content_token_with_backslash:
  "scan (scanner_create\<lparr>in_string := True\<rparr>) (lexer_at [ch_backslash, 113, ch_dquote])
        all_valid =
     (True, scanner_create\<lparr>in_string := True\<rparr>,
      \<lparr>consumed = [ch_backslash, 113], rest = [ch_dquote], token_start = 0,
       marked_end = Some 2, result_symbol = STRING_CONTENT\<rparr>)
   \<and> token_text \<lparr>consumed = [ch_backslash, 113], rest = [ch_dquote], token_start = 0,
                  marked_end = Some 2, result_symbol = STRING_CONTENT\<rparr>
       = [ch_backslash, 113]"
  by code_simp

text \<open>
  C6 says that a call producing an escape-sequence token consumes exactly two
  characters for the two-character forms and exactly four for the hex form. The code
  does not keep to it: inside a plain string, every kind admissible, at the three
  characters \<open>$\<close>, backslash, \<open>n\<close>, the interpolation check advances over the \<open>$\<close>
  and finds no \<open>{\<close>; the escape check that follows in the same call then produces an
  escape-sequence token. The call has consumed three characters, and the text of the
  token is all three.
\<close>

theorem escape_sequence_token_of_three_characters:
  "scan (scanner_create\<lparr>in_string := True\<rparr>) (lexer_at [ch_dollar, ch_backslash, ch_n])
        all_valid =
     (True, scanner_create\<lparr>in_string := True\<rparr>,
      \<lparr>consumed = [ch_dollar, ch_backslash, ch_n], rest = [], token_start = 0,
       marked_end = None, result_symbol = ESCAPE_SEQUENCE\<rparr>)
   \<and> token_text \<lparr>consumed = [ch_dollar, ch_backslash, ch_n], rest = [], token_start = 0,
                  marked_end = None, result_symbol = ESCAPE_SEQUENCE\<rparr>
       = [ch_dollar, ch_backslash, ch_n]"
  by code_simp

subsection \<open>Escape sequences in a call that starts at the backslash\<close>

text \<open>
  When the unread input of the call itself starts with the backslash, inside a plain
  string and with escape-sequence admissible, the seven two-character forms are taken
  with exactly two characters, a backslash, \<open>x\<close> and two hex digits with exactly four, and
  whatever the state and the admissible set, a backslash followed by anything else
  yields no escape-sequence token.
\<close>

lemma scan_hex_digits_two:
  "scan_hex_digits 2 lx =
     (if is_hex_digit (lookahead lx) then
        if is_hex_digit (lookahead (advance lx)) then (True, advance (advance lx))
        else (False, advance lx)
      else (False, lx))"
  by (simp add: numeral_2_eq_2)

lemma scan_at_backslash:
  assumes la: "lookahead lx = ch_backslash" and ins: "in_string sc" and v: "v ESCAPE_SEQUENCE"
  shows "scan sc lx v =
     (case scan_escape_sequence lx of
        (True, lx2) \<Rightarrow> (True, sc, lx2\<lparr>result_symbol := ESCAPE_SEQUENCE\<rparr>)
      | (False, lx2) \<Rightarrow>
          (case (if v STRING_CONTENT then scan_string_content lx2 else (False, lx2)) of
             (True, lx3) \<Rightarrow> (True, sc, lx3\<lparr>result_symbol := STRING_CONTENT\<rparr>)
           | (False, lx3) \<Rightarrow>
               (case scan_in_indented_string sc lx3 v of
                  Inl out \<Rightarrow> out
                | Inr lx4 \<Rightarrow> scan_interpolation_end sc lx4 v)))"
proof -
  have c: "scan_comment lx = (False, lx)" using la by (simp add: scan_comment_none)
  have s: "scan_string_start sc lx v = Inr lx" using la by (simp add: scan_string_start_none)
  have i: "scan_interpolation_start sc lx v = Inr lx"
    using la by (simp add: scan_interpolation_start_none)
  show ?thesis
    using ins v la
    by (simp add: scan_def c s scan_in_string_def i split: prod.split bool.split)
qed

lemma escape_sequence_simple:
  assumes r: "rest lx = ch_backslash # c # unread" and e: "is_simple_escape c"
    and ins: "in_string sc" and v: "v ESCAPE_SEQUENCE"
  shows "scan sc lx v =
     (True, sc, lx\<lparr>consumed := consumed lx @ [ch_backslash, c], rest := unread,
                    result_symbol := ESCAPE_SEQUENCE\<rparr>)"
proof -
  have la: "lookahead lx = ch_backslash" using r by (rule lookahead_Cons)
  have la2: "lookahead (advance lx) = c" using r by (rule lookahead_advance)
  have "scan_escape_sequence lx = (True, advance (advance lx))"
    using la la2 e by (simp add: scan_escape_sequence_def)
  then show ?thesis
    by (simp add: scan_at_backslash [of lx sc v, OF la ins v] advance_twice [OF r])
qed

lemma escape_sequence_hex:
  assumes r: "rest lx = ch_backslash # ch_x # h1 # h2 # unread"
    and h: "is_hex_digit h1" "is_hex_digit h2"
    and ins: "in_string sc" and v: "v ESCAPE_SEQUENCE"
  shows "scan sc lx v =
     (True, sc, lx\<lparr>consumed := consumed lx @ [ch_backslash, ch_x, h1, h2], rest := unread,
                    result_symbol := ESCAPE_SEQUENCE\<rparr>)"
proof -
  have la: "lookahead lx = ch_backslash" using r by (rule lookahead_Cons)
  have la2: "lookahead (advance lx) = ch_x" using r by (rule lookahead_advance)
  have a2: "advance (advance lx) =
      lx\<lparr>consumed := consumed lx @ [ch_backslash, ch_x], rest := h1 # h2 # unread\<rparr>"
    using r by (rule advance_twice)
  have "scan_escape_sequence lx = scan_hex_digits 2 (advance (advance lx))"
    using la la2 by (simp add: scan_escape_sequence_def is_simple_escape_def)
  also have "\<dots> = (True, lx\<lparr>consumed := consumed lx @ [ch_backslash, ch_x, h1, h2],
                            rest := unread\<rparr>)"
  proof -
    let ?l2 = "lx\<lparr>consumed := consumed lx @ [ch_backslash, ch_x], rest := h1 # h2 # unread\<rparr>"
    have r2: "rest ?l2 = h1 # h2 # unread" by simp
    have "lookahead ?l2 = h1" using r2 by (rule lookahead_Cons)
    moreover have "lookahead (advance ?l2) = h2" using r2 by (rule lookahead_advance)
    moreover have "advance (advance ?l2) =
        ?l2\<lparr>consumed := consumed ?l2 @ [h1, h2], rest := unread\<rparr>"
      using r2 by (rule advance_twice)
    ultimately show ?thesis using h unfolding a2 scan_hex_digits_two by simp
  qed
  finally show ?thesis
    by (simp add: scan_at_backslash [of lx sc v, OF la ins v])
qed

lemma scan_interpolation_start_kind:
  "scan_interpolation_start sc lx v = Inl out \<Longrightarrow>
   result_symbol (snd (snd out)) = INTERPOLATION_START"
  by (auto simp: scan_interpolation_start_def split: if_splits)

lemma scan_in_indented_string_kind:
  "scan_in_indented_string sc lx v = Inl out \<Longrightarrow>
   result_symbol (snd (snd out)) \<noteq> ESCAPE_SEQUENCE"
  unfolding scan_in_indented_string_def
  by (auto split: if_splits sum.splits prod.splits bool.splits
        dest!: scan_interpolation_start_kind)

lemma scan_interpolation_end_kind:
  "fst (scan_interpolation_end sc lx v) \<Longrightarrow>
   result_symbol (snd (snd (scan_interpolation_end sc lx v))) = INTERPOLATION_END"
  by (auto simp: scan_interpolation_end_def split: if_splits)

lemma escape_sequence_rejected:
  assumes la: "lookahead lx = ch_backslash"
    and rej: "fst (scan_escape_sequence lx) = False"
  shows "\<not> (fst (scan sc lx v) \<and> result_symbol (snd (snd (scan sc lx v))) = ESCAPE_SEQUENCE)"
proof -
  have c: "scan_comment lx = (False, lx)" using la by (simp add: scan_comment_none)
  have s: "scan_string_start sc lx v = Inr lx" using la by (simp add: scan_string_start_none)
  have i: "scan_interpolation_start sc lx v = Inr lx"
    using la by (simp add: scan_interpolation_start_none)
  have ws: "skip_whitespace lx = lx"
    using la by (simp add: skip_whitespace_none is_whitespace_def)
  have unf: "scan sc lx v =
      (case scan_in_string sc lx v of
         Inl out \<Rightarrow> out
       | Inr lx3 \<Rightarrow>
           (case scan_in_indented_string sc lx3 v of
              Inl out \<Rightarrow> out
            | Inr lx4 \<Rightarrow> scan_interpolation_end sc lx4 v))"
    by (simp add: scan_def ws c s)
  have a: "result_symbol (snd (snd out)) = STRING_CONTENT"
    if "scan_in_string sc lx v = Inl out" for out
    using that rej la
    by (auto simp: scan_in_string_def i split: if_splits prod.splits bool.splits)
  show ?thesis
    unfolding unf
    by (auto split: sum.splits dest: a scan_in_indented_string_kind
          scan_interpolation_end_kind)
qed

lemma scan_escape_sequence_rejects:
  assumes r: "rest lx = ch_backslash # unread"
    and n1: "\<not> (\<exists>c others. unread = c # others \<and> is_simple_escape c)"
    and n2: "\<not> (\<exists>h1 h2 others. unread = ch_x # h1 # h2 # others
                \<and> is_hex_digit h1 \<and> is_hex_digit h2)"
  shows "fst (scan_escape_sequence lx) = False"
proof -
  have la: "lookahead lx = ch_backslash" using r by (rule lookahead_Cons)
  have a1: "advance lx = lx\<lparr>consumed := consumed lx @ [ch_backslash], rest := unread\<rparr>"
    using r by (rule advance_Cons)
  have z: "\<not> is_simple_escape 0" "\<not> is_hex_digit 0"
    by (simp_all add: is_simple_escape_def is_hex_digit_def)
  show ?thesis
  proof (cases unread)
    case Nil
    then show ?thesis
      using la z by (simp add: scan_escape_sequence_def a1 lookahead_def)
  next
    case (Cons c others)
    with n1 have ns: "\<not> is_simple_escape c" by simp
    show ?thesis
    proof (cases "c = ch_x")
      case False
      then show ?thesis
        using la ns Cons by (simp add: scan_escape_sequence_def a1 lookahead_def)
    next
      case True
      have a2: "advance (advance lx) =
          lx\<lparr>consumed := consumed lx @ [ch_backslash, c], rest := others\<rparr>"
        using r Cons by (simp add: advance_twice)
      have e: "scan_escape_sequence lx = scan_hex_digits 2 (advance (advance lx))"
        using la ns Cons True by (simp add: scan_escape_sequence_def a1 lookahead_def)
      show ?thesis
      proof (cases others)
        case Nil
        then show ?thesis
          using z unfolding e a2 scan_hex_digits_two by (simp add: lookahead_def)
      next
        case m: (Cons h1 others1)
        show ?thesis
        proof (cases others1)
          case Nil
          then show ?thesis
            using z m unfolding e a2 scan_hex_digits_two
            by (simp add: lookahead_def advance_def)
        next
          case (Cons h2 others2)
          with n2 m True \<open>unread = c # others\<close>
          have "\<not> (is_hex_digit h1 \<and> is_hex_digit h2)" by simp
          then show ?thesis
            using m Cons unfolding e a2 scan_hex_digits_two
            by (auto simp: lookahead_def advance_def)
        qed
      qed
    qed
  qed
qed

lemma escape_sequence_other:
  assumes r: "rest lx = ch_backslash # unread"
    and n1: "\<not> (\<exists>c others. unread = c # others \<and> is_simple_escape c)"
    and n2: "\<not> (\<exists>h1 h2 others. unread = ch_x # h1 # h2 # others
                \<and> is_hex_digit h1 \<and> is_hex_digit h2)"
  shows "\<not> (fst (scan sc lx v) \<and> result_symbol (snd (snd (scan sc lx v))) = ESCAPE_SEQUENCE)"
proof -
  have la: "lookahead lx = ch_backslash" using r by (rule lookahead_Cons)
  from r n1 n2 have "fst (scan_escape_sequence lx) = False"
    by (rule scan_escape_sequence_rejects)
  with la show ?thesis by (rule escape_sequence_rejected)
qed

subsection \<open>String content in a call that starts at an ordinary character\<close>

text \<open>
  The content loop, started with the mark at the current position, marks the end of a
  run that satisfies \<open>content_run\<close> and is followed by a \<open>content_stop\<close>; it reports
  content when the run is not empty.
\<close>

lemma content_run_Cons:
  "content_run run \<Longrightarrow> c \<noteq> 0 \<Longrightarrow> c \<noteq> ch_dquote \<Longrightarrow> c \<noteq> ch_backslash \<Longrightarrow>
   (c = ch_dollar \<Longrightarrow> run \<noteq> [] \<Longrightarrow> hd run \<noteq> ch_lbrace) \<Longrightarrow> content_run (c # run)"
  by (cases run) (auto simp: content_run_def)

lemma string_content_loop_run:
  assumes "marked_end lx = Some (length (consumed lx))"
  shows "\<exists>run stop lx'. scan_string_content_loop has_content lx = (has_content \<or> run \<noteq> [], lx')
           \<and> rest lx = run @ stop \<and> content_run run \<and> content_stop stop
           \<and> marked_end lx' = Some (length (consumed lx) + length run)
           \<and> length (consumed lx) + length run \<le> length (consumed lx')
           \<and> consumed lx' @ rest lx' = consumed lx @ rest lx
           \<and> token_start lx' = token_start lx"
  using assms
proof (induction has_content lx rule: scan_string_content_loop.induct)
  case (1 has_content lx)
  show ?case
  proof (cases "rest lx")
    case Nil
    then have "scan_string_content_loop has_content lx = (has_content, lx)"
      by (subst scan_string_content_loop.simps) (simp add: lookahead_def)
    with Nil "1.prems" show ?thesis
      by (simp add: content_run_def content_stop_def)
  next
    case (Cons c unread)
    then have la: "lookahead lx = c" by (rule lookahead_Cons)
    have adv: "advance lx = lx\<lparr>consumed := consumed lx @ [c], rest := unread\<rparr>"
      using Cons by (rule advance_Cons)
    let ?lx1 = "mark_end (advance lx)"
    have lx1: "marked_end ?lx1 = Some (length (consumed ?lx1))" "rest ?lx1 = unread"
      "consumed ?lx1 = consumed lx @ [c]" "token_start ?lx1 = token_start lx"
      by (simp_all add: adv mark_end_def)
    consider (stop) "c = 0 \<or> c = ch_dquote \<or> c = ch_backslash"
      | (interp) "c = ch_dollar" "lookahead (advance lx) = ch_lbrace"
      | (dollar) "c = ch_dollar" "lookahead (advance lx) \<noteq> ch_lbrace"
      | (other) "c \<noteq> 0" "c \<noteq> ch_dquote" "c \<noteq> ch_backslash" "c \<noteq> ch_dollar"
      by blast
    then show ?thesis
    proof cases
      case stop
      then have "scan_string_content_loop has_content lx = (has_content, lx)"
        using la by (subst scan_string_content_loop.simps) auto
      moreover have "content_stop (c # unread)" using stop by (auto simp: content_stop_def)
      ultimately show ?thesis
        using Cons "1.prems"
        by (intro exI [of _ "[]"] exI [of _ "c # unread"] exI [of _ lx])
           (simp add: content_run_def)
    next
      case interp
      then have "scan_string_content_loop has_content lx = (has_content, advance lx)"
        using la by (subst scan_string_content_loop.simps) simp
      moreover have "content_stop (c # unread)"
        using interp by (cases unread) (auto simp: content_stop_def adv lookahead_def)
      ultimately show ?thesis
        using Cons "1.prems"
        by (intro exI [of _ "[]"] exI [of _ "c # unread"] exI [of _ "advance lx"])
           (simp add: content_run_def adv)
    next
      case dollar
      then have eq: "scan_string_content_loop has_content lx =
          scan_string_content_loop True ?lx1"
        using la by (subst scan_string_content_loop.simps) simp
      from dollar la have "lookahead lx \<noteq> 0" "lookahead lx \<noteq> ch_dquote"
        "lookahead lx \<noteq> ch_backslash" "lookahead lx = ch_dollar"
        "lookahead (advance lx) \<noteq> ch_lbrace" by simp_all
      from "1.IH"(1) [OF this lx1(1)]
      obtain run stop lx' where ih:
        "scan_string_content_loop True ?lx1 = (True \<or> run \<noteq> [], lx')"
        "rest ?lx1 = run @ stop" "content_run run" "content_stop stop"
        "marked_end lx' = Some (length (consumed ?lx1) + length run)"
        "length (consumed ?lx1) + length run \<le> length (consumed lx')"
        "consumed lx' @ rest lx' = consumed ?lx1 @ rest ?lx1"
        "token_start lx' = token_start ?lx1"
        by blast
      have "run \<noteq> [] \<Longrightarrow> hd run \<noteq> ch_lbrace"
        using dollar(2) ih(2) lx1(2) by (cases run) (auto simp: adv lookahead_def)
      with ih(3) dollar(1) have "content_run (c # run)"
        by (intro content_run_Cons) simp_all
      with ih eq Cons lx1 show ?thesis
        by (intro exI [of _ "c # run"] exI [of _ stop] exI [of _ lx']) simp
    next
      case other
      then have eq: "scan_string_content_loop has_content lx =
          scan_string_content_loop True ?lx1"
        using la by (subst scan_string_content_loop.simps) simp
      from other la have "lookahead lx \<noteq> 0" "lookahead lx \<noteq> ch_dquote"
        "lookahead lx \<noteq> ch_backslash" "lookahead lx \<noteq> ch_dollar" by simp_all
      from "1.IH"(2) [OF this lx1(1)]
      obtain run stop lx' where ih:
        "scan_string_content_loop True ?lx1 = (True \<or> run \<noteq> [], lx')"
        "rest ?lx1 = run @ stop" "content_run run" "content_stop stop"
        "marked_end lx' = Some (length (consumed ?lx1) + length run)"
        "length (consumed ?lx1) + length run \<le> length (consumed lx')"
        "consumed lx' @ rest lx' = consumed ?lx1 @ rest ?lx1"
        "token_start lx' = token_start ?lx1"
        by blast
      from ih(3) other have "content_run (c # run)"
        by (intro content_run_Cons) simp_all
      with ih eq Cons lx1 show ?thesis
        by (intro exI [of _ "c # run"] exI [of _ stop] exI [of _ lx']) simp
    qed
  qed
qed

text \<open>
  Inside a plain string with string-content admissible, a call that starts at a
  character which no earlier check advances over produces a string-content token whose
  text is such a maximal run.
\<close>

lemma string_content_call:
  assumes ins: "in_string sc" and v: "v STRING_CONTENT"
    and inp: "inp = c # unread"
    and c: "c \<noteq> 0" "c \<noteq> ch_dquote" "c \<noteq> ch_backslash" "c \<noteq> ch_dollar"
      "c \<noteq> ch_hash" "c \<noteq> ch_slash"
  shows "\<exists>run stop lx'. scan sc (lexer_at inp) v = (True, sc, lx')
           \<and> result_symbol lx' = STRING_CONTENT
           \<and> token_text lx' = run \<and> remaining lx' = stop
           \<and> inp = run @ stop \<and> run \<noteq> [] \<and> content_run run \<and> content_stop stop"
proof -
  let ?lx = "lexer_at inp"
  have la: "lookahead ?lx = c" by (simp add: lookahead_def lexer_at_def inp)
  have com: "scan_comment ?lx = (False, ?lx)" using la c by (simp add: scan_comment_none)
  have st: "scan_string_start sc ?lx v = Inr ?lx"
    using ins by (simp add: scan_string_start_def)
  have i: "scan_interpolation_start sc ?lx v = Inr ?lx"
    using la c by (simp add: scan_interpolation_start_none)
  have e: "scan_escape_sequence ?lx = (False, ?lx)"
    using la c by (simp add: scan_escape_sequence_none)
  have m: "marked_end (mark_end ?lx) = Some (length (consumed (mark_end ?lx)))"
    by (simp add: mark_end_def)
  from string_content_loop_run [OF m, of False]
  obtain run stop lx' where loop:
    "scan_string_content_loop False (mark_end ?lx) = (False \<or> run \<noteq> [], lx')"
    "rest (mark_end ?lx) = run @ stop" "content_run run" "content_stop stop"
    "marked_end lx' = Some (length (consumed (mark_end ?lx)) + length run)"
    "length (consumed (mark_end ?lx)) + length run \<le> length (consumed lx')"
    "consumed lx' @ rest lx' = consumed (mark_end ?lx) @ rest (mark_end ?lx)"
    "token_start lx' = token_start (mark_end ?lx)"
    by blast
  have split: "inp = run @ stop" using loop(2) by (simp add: mark_end_def lexer_at_def)
  have ne: "run \<noteq> []"
  proof
    assume "run = []"
    with split inp have "stop = c # unread" by simp
    with loop(4) c show False by (simp add: content_stop_def)
  qed
  have sc: "scan_string_content ?lx = (True, lx')"
    using loop(1) ne by (simp add: scan_string_content_def)
  have "scan_in_string sc ?lx v = Inl (True, sc, lx'\<lparr>result_symbol := STRING_CONTENT\<rparr>)"
    using ins v la c by (simp add: scan_in_string_def i e sc)
  then have call: "scan sc ?lx v = (True, sc, lx'\<lparr>result_symbol := STRING_CONTENT\<rparr>)"
    using ins by (simp add: scan_def Let_def com st)
  have total: "consumed lx' @ rest lx' = run @ stop"
    using loop(7) split by (simp add: mark_end_def lexer_at_def)
  have len: "length run \<le> length (consumed lx')"
    using loop(6) by (simp add: mark_end_def lexer_at_def)
  have "take (length run) (consumed lx') = take (length run) (consumed lx' @ rest lx')"
    using len by simp
  then have tk: "take (length run) (consumed lx') = run" by (simp add: total)
  have me: "marked_end lx' = Some (length run)" "token_start lx' = 0"
    using loop(5,8) by (simp_all add: mark_end_def lexer_at_def)
  have "token_text (lx'\<lparr>result_symbol := STRING_CONTENT\<rparr>) = run"
    using me tk by (simp add: token_text_def token_end_def)
  moreover have "remaining (lx'\<lparr>result_symbol := STRING_CONTENT\<rparr>) = stop"
    using me total by (simp add: remaining_def token_end_def)
  ultimately show ?thesis using call split ne loop(3,4) by simp
qed

end
